theory Spec2Isabelle
  imports Complex_Main
begin

section \<open>The recorder's data model\<close>

text \<open>
  The three dataclasses of \<^verbatim>\<open>recorder.py\<close>. Timestamps are the seconds returned by
  \<^verbatim>\<open>datetime.now().timestamp()\<close>, Python floats; a float is modelled by the real number
  it denotes, and the arithmetic on floats rounds (see the next section). The pixel buffer
  (\<^verbatim>\<open>np.array\<close>) is never inspected by the merge, so it is a type parameter.
  The classes share field names, so a field is written with its class:
  \<open>KeyEvent.timestamp\<close>, \<open>ScreenEvent.timestamp\<close>, \<open>DatasetItem.timestamp\<close>.
  \<^verbatim>\<open>DatasetItem.key_codes\<close> is built as \<^verbatim>\<open>list(cur_keys)\<close> from a Python set, whose
  enumeration order is unspecified: the field is modelled by the set of the list's elements.
\<close>

record KeyEvent =
  key_code :: string
  timestamp :: real
  down :: bool

record 'img ScreenEvent =
  screen :: 'img
  timestamp :: real

record 'img DatasetItem =
  screen :: 'img
  key_codes :: "string set"
  timestamp :: real

text \<open>The exceptions the modelled code can raise.\<close>

datatype py_error = IndexError | KeyError | ZeroDivisionError

section \<open>Python floats\<close>

text \<open>
  A Python float is an IEEE 754 binary64 number: 53 significant bits, the spacing of the
  numbers around \<open>x\<close> is \<open>2\<close> to the power \<open>\<lfloor>log 2 \<bar>x\<bar>\<rfloor> - 52\<close>, and not less than \<open>2\<close> to
  the power \<open>-1074\<close> (the subnormal numbers). An arithmetic operation on floats returns the
  exact result rounded to the nearest float, a tie going to the float with the even
  significand.

  When the exact result has a magnitude of \<open>2 ^ 1024 - 2 ^ 970\<close> or more, IEEE arithmetic
  returns an infinity. \<open>round_double\<close> then returns a real of magnitude \<open>2 ^ 1024\<close> or more,
  which compares with every finite float as the infinity does; the merge only compares the
  rounded cutoff with timestamps. An \<^verbatim>\<open>int\<close> operand (the default \<^verbatim>\<open>discard_tail_sec = 3\<close>, the
  length of a list) is converted to a float first, without rounding up to \<open>2 ^ 53\<close>.
\<close>

definition pow2 :: "int \<Rightarrow> real" where
  "pow2 e = (if 0 \<le> e then 2 ^ nat e else 1 / 2 ^ nat (- e))"

definition round_half_even :: "real \<Rightarrow> int" where
  "round_half_even x =
     (let n = \<lfloor>x\<rfloor>; r = x - of_int n
      in if r < 1 / 2 then n
         else if 1 / 2 < r then n + 1
         else if even n then n else n + 1)"

definition ulp_exponent :: "real \<Rightarrow> int" where
  "ulp_exponent x = max (\<lfloor>log 2 \<bar>x\<bar>\<rfloor> - 52) (- 1074)"

definition round_double :: "real \<Rightarrow> real" where
  "round_double x =
     of_int (round_half_even (x / pow2 (ulp_exponent x))) * pow2 (ulp_exponent x)"

text \<open>The reals that are finite floats: rounding leaves them as they are.\<close>

definition is_double :: "real \<Rightarrow> bool" where
  "is_double x = (round_double x = x \<and> \<bar>x\<bar> < 2 ^ 1024)"

text \<open>Python's \<^verbatim>\<open>x - y\<close> and \<^verbatim>\<open>x / y\<close> on floats; the division raises on a zero divisor.\<close>

definition float_sub :: "real \<Rightarrow> real \<Rightarrow> real" where
  "float_sub x y = round_double (x - y)"

definition float_truediv :: "real \<Rightarrow> real \<Rightarrow> py_error + real" where
  "float_truediv x y = (if y = 0 then Inl ZeroDivisionError else Inr (round_double (x / y)))"

section \<open>The two-pointer merge: \<^verbatim>\<open>Recorder.__to_training_data\<close>\<close>

text \<open>The local variables of the loop: both cursors, the active key set and the output.\<close>

record 'img merge_state =
  ki :: nat
  si :: nat
  cur_keys :: "string set"
  data_out :: "'img DatasetItem list"

text \<open>
  What one pass through the \<^verbatim>\<open>while\<close> statement does: go round again with new locals,
  leave the loop (the condition is false, or \<^verbatim>\<open>break\<close>) with the value that is then
  returned, or raise.
\<close>

datatype 'img outcome =
  Continue "'img merge_state"
| Return "'img DatasetItem list"
| Raise py_error

text \<open>
  One test of the loop condition followed by one execution of the body.
  \<^verbatim>\<open>cur_keys.remove\<close> raises \<^verbatim>\<open>KeyError\<close> when the key is not a member.
\<close>

definition merge_step ::
  "real \<Rightarrow> KeyEvent list \<Rightarrow> 'img ScreenEvent list \<Rightarrow> 'img merge_state \<Rightarrow> 'img outcome"
where
  "merge_step end_timestamp key_sequence screen_sequence s =
    (if si s < length screen_sequence then
       (let key_event = (if ki s < length key_sequence
                         then Some (key_sequence ! ki s) else None);
            screen_event = screen_sequence ! si s
        in
          if key_event \<noteq> None
             \<and> KeyEvent.timestamp (the key_event) < ScreenEvent.timestamp screen_event then
            (if down (the key_event) then
               Continue (s\<lparr>ki := ki s + 1,
                           cur_keys := insert (key_code (the key_event)) (cur_keys s)\<rparr>)
             else if key_code (the key_event) \<in> cur_keys s then
               Continue (s\<lparr>ki := ki s + 1,
                           cur_keys := cur_keys s - {key_code (the key_event)}\<rparr>)
             else Raise KeyError)
          else
            (if ScreenEvent.timestamp screen_event > end_timestamp then Return (data_out s)
             else
               Continue (s\<lparr>si := si s + 1,
                           data_out := data_out s @
                             [\<lparr>DatasetItem.screen = ScreenEvent.screen screen_event,
                               DatasetItem.key_codes = cur_keys s,
                               DatasetItem.timestamp = ScreenEvent.timestamp screen_event\<rparr>]\<rparr>)))
     else Return (data_out s))"

text \<open>
  The distance of the two cursors from the ends of their sequences. Every pass that goes
  round again moves exactly one cursor forward, so this is the loop's variant.
\<close>

definition remaining :: "KeyEvent list \<Rightarrow> 'img ScreenEvent list \<Rightarrow> 'img merge_state \<Rightarrow> nat" where
  "remaining key_sequence screen_sequence s =
     (length key_sequence - ki s) + (length screen_sequence - si s)"

text \<open>The \<^verbatim>\<open>while\<close> loop.\<close>

function merge_loop ::
  "real \<Rightarrow> KeyEvent list \<Rightarrow> 'img ScreenEvent list \<Rightarrow> 'img merge_state
     \<Rightarrow> py_error + 'img DatasetItem list"
where
  "merge_loop end_timestamp key_sequence screen_sequence s =
    (case merge_step end_timestamp key_sequence screen_sequence s of
       Continue s' \<Rightarrow> merge_loop end_timestamp key_sequence screen_sequence s'
     | Return out \<Rightarrow> Inr out
     | Raise err \<Rightarrow> Inl err)"
  by pat_completeness auto
termination
  by (relation "measure (\<lambda>(e, ks, ss, s). remaining ks ss s)")
     (auto simp: merge_step_def remaining_def Let_def split: if_splits)

declare merge_loop.simps [simp del]

text \<open>
  The method itself. \<^verbatim>\<open>screen_sequence[-1]\<close> raises \<^verbatim>\<open>IndexError\<close> on an empty list;
  \<^verbatim>\<open>discard_tail_sec\<close> is the field of the \<^verbatim>\<open>Recorder\<close>. The cutoff is a float
  subtraction: the loop compares the frames with the rounded difference.
\<close>

definition init_state :: "'img merge_state" where
  "init_state = \<lparr>ki = 0, si = 0, cur_keys = {}, data_out = []\<rparr>"

definition to_training_data ::
  "real \<Rightarrow> KeyEvent list \<Rightarrow> 'img ScreenEvent list \<Rightarrow> py_error + 'img DatasetItem list"
where
  "to_training_data discard_tail_sec key_sequence screen_sequence =
    (if screen_sequence = [] then Inl IndexError
     else
       (let end_timestamp = float_sub (ScreenEvent.timestamp (last screen_sequence))
                                      discard_tail_sec
        in merge_loop end_timestamp key_sequence screen_sequence init_state))"

text \<open>
  The loop run for at most \<open>n\<close> passes: \<open>Continue s\<close> is the state of the locals after
  \<open>n\<close> passes when the loop is still running then, otherwise the way it ended. It is used
  to speak about the states the loop goes through and about the number of passes.
\<close>

primrec merge_iter ::
  "nat \<Rightarrow> real \<Rightarrow> KeyEvent list \<Rightarrow> 'img ScreenEvent list \<Rightarrow> 'img merge_state \<Rightarrow> 'img outcome"
where
  "merge_iter 0 end_timestamp key_sequence screen_sequence s = Continue s"
| "merge_iter (Suc n) end_timestamp key_sequence screen_sequence s =
    (case merge_step end_timestamp key_sequence screen_sequence s of
       Continue s' \<Rightarrow> merge_iter n end_timestamp key_sequence screen_sequence s'
     | Return out \<Rightarrow> Return out
     | Raise err \<Rightarrow> Raise err)"

text \<open>
  The next pass of the loop processes a key event (the event under the key cursor is strictly
  earlier than the frame under the frame cursor), the event is an "up", and its key is not in
  the active set.
\<close>

definition up_without_down ::
  "KeyEvent list \<Rightarrow> 'img ScreenEvent list \<Rightarrow> 'img merge_state \<Rightarrow> bool"
where
  "up_without_down key_sequence screen_sequence s =
    (si s < length screen_sequence \<and> ki s < length key_sequence
     \<and> KeyEvent.timestamp (key_sequence ! ki s)
         < ScreenEvent.timestamp (screen_sequence ! si s)
     \<and> \<not> down (key_sequence ! ki s)
     \<and> key_code (key_sequence ! ki s) \<notin> cur_keys s)"

section \<open>The active key set of the specification\<close>

text \<open>
  The specification's ActiveKeySet at a time \<open>t\<close>: the key events whose timestamp is
  strictly less than \<open>t\<close>, applied in arrival order to the empty set, a "down" adding its
  key and an "up" removing it. This definition follows the specification's words, not the
  code; the merge is compared with it.
\<close>

definition apply_key_event :: "string set \<Rightarrow> KeyEvent \<Rightarrow> string set" where
  "apply_key_event keys ev =
     (if down ev then insert (key_code ev) keys else keys - {key_code ev})"

definition active_key_set :: "KeyEvent list \<Rightarrow> real \<Rightarrow> string set" where
  "active_key_set key_sequence t =
     foldl apply_key_event {} (filter (\<lambda>ev. KeyEvent.timestamp ev < t) key_sequence)"

text \<open>The frame a dataset item was made from: its screen and its timestamp.\<close>

definition item_frame :: "'img DatasetItem \<Rightarrow> 'img ScreenEvent" where
  "item_frame item =
     \<lparr>ScreenEvent.screen = DatasetItem.screen item,
      ScreenEvent.timestamp = DatasetItem.timestamp item\<rparr>"

section \<open>Export: \<^verbatim>\<open>Recorder.__save_avi_video\<close> and \<^verbatim>\<open>Recorder.record\<close>\<close>

text \<open>
  The average frame rate that \<^verbatim>\<open>__save_avi_video\<close> computes and passes to the video
  writer: the number of items, divided by the float difference of the last and the first
  timestamp. \<^verbatim>\<open>dataset[-1]\<close> raises \<^verbatim>\<open>IndexError\<close> on an empty list, and the division
  raises \<^verbatim>\<open>ZeroDivisionError\<close> when the difference is zero.
\<close>

definition save_avi_video :: "'img DatasetItem list \<Rightarrow> py_error + real" where
  "save_avi_video dataset =
    (if dataset = [] then Inl IndexError
     else float_truediv (real (length dataset))
            (float_sub (DatasetItem.timestamp (last dataset))
                       (DatasetItem.timestamp (hd dataset))))"

text \<open>
  \<^verbatim>\<open>Recorder.record\<close> from the point where both capture threads have returned their
  sequences (\<open>record\<close> itself is a keyword here, hence the name): merge, skip the export
  of an empty dataset (\<open>None\<close>), otherwise export; the result is then the frame rate of the
  written video. Creating the folder and writing the two array files and the video go to the
  file system and to libraries; they are outside the model and taken to succeed.
\<close>

definition record_data ::
  "real \<Rightarrow> KeyEvent list \<Rightarrow> 'img ScreenEvent list \<Rightarrow> py_error + real option"
where
  "record_data discard_tail_sec keyboard_data screen_data =
    (case to_training_data discard_tail_sec keyboard_data screen_data of
       Inl err \<Rightarrow> Inl err
     | Inr dataset \<Rightarrow>
         if length dataset = 0 then Inr None
         else (case save_avi_video dataset of
                 Inl err \<Rightarrow> Inl err
               | Inr avg_fps \<Rightarrow> Inr (Some avg_fps)))"

section \<open>Auxiliary notions for the proofs\<close>

text \<open>The condition of the loop body's \<^verbatim>\<open>if\<close>: a key event is left and it is strictly
  earlier than the current frame.\<close>

definition key_due :: "KeyEvent list \<Rightarrow> 'img ScreenEvent list \<Rightarrow> 'img merge_state \<Rightarrow> bool" where
  "key_due ks ss s =
     (ki s < length ks \<and> KeyEvent.timestamp (ks ! ki s) < ScreenEvent.timestamp (ss ! si s))"

text \<open>
  The loop invariant on time-ordered inputs: the active set is the replay of the events
  before the key cursor, these events are strictly earlier than the current frame, and every
  item emitted so far carries the specification's active key set of its timestamp.
\<close>

definition merge_inv :: "KeyEvent list \<Rightarrow> 'img ScreenEvent list \<Rightarrow> 'img merge_state \<Rightarrow> bool" where
  "merge_inv ks ss s =
    (ki s \<le> length ks
     \<and> cur_keys s = foldl apply_key_event {} (take (ki s) ks)
     \<and> (si s < length ss \<longrightarrow>
          (\<forall>j < ki s. KeyEvent.timestamp (ks ! j) < ScreenEvent.timestamp (ss ! si s)))
     \<and> (\<forall>item \<in> set (data_out s).
          key_codes item = active_key_set ks (DatasetItem.timestamp item)))"

section \<open>Key events and their matching, in terms of the input\<close>

text \<open>
  A key is held after a sequence of events when the last event of that key in the sequence
  is a "down": a prior "down" that no later "up" has taken back.
\<close>

definition key_held :: "KeyEvent list \<Rightarrow> string \<Rightarrow> bool" where
  "key_held events k =
     (case filter (\<lambda>ev. key_code ev = k) events of
        [] \<Rightarrow> False
      | ev # evs \<Rightarrow> down (last (ev # evs)))"

text \<open>Event \<open>j\<close> is an "up" whose key is not held after the events before it.\<close>

definition up_unmatched :: "KeyEvent list \<Rightarrow> nat \<Rightarrow> bool" where
  "up_unmatched key_sequence j =
     (j < length key_sequence \<and> \<not> down (key_sequence ! j)
      \<and> \<not> key_held (take j key_sequence) (key_code (key_sequence ! j)))"

text \<open>
  Event \<open>j\<close> is strictly earlier than frame \<open>i\<close>, and no frame before frame \<open>i\<close> is past
  the cutoff, so that the loop gets as far as frame \<open>i\<close>.
\<close>

definition event_before_reached_frame ::
  "real \<Rightarrow> KeyEvent list \<Rightarrow> 'img ScreenEvent list \<Rightarrow> nat \<Rightarrow> nat \<Rightarrow> bool"
where
  "event_before_reached_frame end_timestamp key_sequence screen_sequence j i =
     (j < length key_sequence \<and> i < length screen_sequence
      \<and> KeyEvent.timestamp (key_sequence ! j) < ScreenEvent.timestamp (screen_sequence ! i)
      \<and> (\<forall>f \<in> set (take i screen_sequence). ScreenEvent.timestamp f \<le> end_timestamp))"

text \<open>
  A weaker reading of "has a matching prior down": the "up" events of the key up to and
  including event \<open>j\<close> are not more than the "down" events of the key before it, so that
  every "up" can be paired with an earlier "down" of its own.
\<close>

definition up_has_own_down :: "KeyEvent list \<Rightarrow> nat \<Rightarrow> bool" where
  "up_has_own_down key_sequence j =
     (j < length key_sequence \<and> \<not> down (key_sequence ! j)
      \<and> length (filter (\<lambda>ev. key_code ev = key_code (key_sequence ! j) \<and> \<not> down ev)
                  (take (Suc j) key_sequence))
        \<le> length (filter (\<lambda>ev. key_code ev = key_code (key_sequence ! j) \<and> down ev)
                    (take j key_sequence)))"

text \<open>
  What holds of the locals in every state the loop goes through, whatever the input: the
  active set is the replay of the events before the key cursor, and the frames before the
  frame cursor are at or before the cutoff.
\<close>

definition replay_inv ::
  "real \<Rightarrow> KeyEvent list \<Rightarrow> 'img ScreenEvent list \<Rightarrow> 'img merge_state \<Rightarrow> bool"
where
  "replay_inv end_timestamp ks ss s =
    (ki s \<le> length ks \<and> si s \<le> length ss
     \<and> cur_keys s = foldl apply_key_event {} (take (ki s) ks)
     \<and> (\<forall>f \<in> set (take (si s) ss). ScreenEvent.timestamp f \<le> end_timestamp))"

section \<open>The session of the specification's scenarios\<close>

text \<open>
  Frames at \<open>t = 0, 1, 2, 3, 4\<close> (the screens are numbered), the key \<open>k\<close> pressed at
  \<open>0.5\<close> and released at \<open>2.5\<close>; the dataset the merge makes of them when nothing is
  discarded; and a key sequence that starts with a release, as when the key is already held
  when the recording starts.
\<close>

definition scenario_keys :: "KeyEvent list" where
  "scenario_keys =
     [\<lparr>key_code = ''k'', KeyEvent.timestamp = 0.5, down = True\<rparr>,
      \<lparr>key_code = ''k'', KeyEvent.timestamp = 2.5, down = False\<rparr>]"

definition scenario_frames :: "nat ScreenEvent list" where
  "scenario_frames =
     [\<lparr>ScreenEvent.screen = 0, ScreenEvent.timestamp = 0\<rparr>,
      \<lparr>ScreenEvent.screen = 1, ScreenEvent.timestamp = 1\<rparr>,
      \<lparr>ScreenEvent.screen = 2, ScreenEvent.timestamp = 2\<rparr>,
      \<lparr>ScreenEvent.screen = 3, ScreenEvent.timestamp = 3\<rparr>,
      \<lparr>ScreenEvent.screen = 4, ScreenEvent.timestamp = 4\<rparr>]"

definition scenario_items :: "nat DatasetItem list" where
  "scenario_items =
     [\<lparr>DatasetItem.screen = 0, key_codes = {}, DatasetItem.timestamp = 0\<rparr>,
      \<lparr>DatasetItem.screen = 1, key_codes = {''k''}, DatasetItem.timestamp = 1\<rparr>,
      \<lparr>DatasetItem.screen = 2, key_codes = {''k''}, DatasetItem.timestamp = 2\<rparr>,
      \<lparr>DatasetItem.screen = 3, key_codes = {}, DatasetItem.timestamp = 3\<rparr>,
      \<lparr>DatasetItem.screen = 4, key_codes = {}, DatasetItem.timestamp = 4\<rparr>]"

definition held_key_release :: "KeyEvent list" where
  "held_key_release = [\<lparr>key_code = ''k'', KeyEvent.timestamp = 0.5, down = False\<rparr>]"

text \<open>
  A key whose "down" arrives twice before it is released twice, and a single frame with a
  timestamp of the size that \<^verbatim>\<open>datetime.now().timestamp()\<close> returns, where the spacing
  of the floats is \<open>1 / 2 ^ 22\<close>.
\<close>

definition repeated_down_keys :: "KeyEvent list" where
  "repeated_down_keys =
     [\<lparr>key_code = ''k'', KeyEvent.timestamp = 1 / 8, down = True\<rparr>,
      \<lparr>key_code = ''k'', KeyEvent.timestamp = 2 / 8, down = True\<rparr>,
      \<lparr>key_code = ''k'', KeyEvent.timestamp = 3 / 8, down = False\<rparr>,
      \<lparr>key_code = ''k'', KeyEvent.timestamp = 4 / 8, down = False\<rparr>]"

definition epoch_frame :: "nat ScreenEvent list" where
  "epoch_frame = [\<lparr>ScreenEvent.screen = 0, ScreenEvent.timestamp = 1700000000\<rparr>]"

text \<open>A discard duration, itself a float, of less than half that spacing.\<close>

definition tiny_discard :: real where
  "tiny_discard = 1 / 2 ^ 30"

section \<open>Rounding to the nearest float\<close>

lemma pow2_powr: "pow2 e = 2 powr of_int e"
  by (simp add: pow2_def powr_int)

lemma pow2_pos [simp]: "0 < pow2 e"
  by (simp add: pow2_powr)



lemma ulp_exponent_eqI:
  assumes "pow2 k \<le> \<bar>x\<bar>" "\<bar>x\<bar> < pow2 (k + 1)"
  shows "ulp_exponent x = max (k - 52) (- 1074)"
proof -
  from assms(1) have "0 < \<bar>x\<bar>"
    using pow2_pos [of k] by linarith
  with assms have "\<lfloor>log 2 \<bar>x\<bar>\<rfloor> = k"
    by (subst floor_log_eq_powr_iff) (simp_all add: pow2_powr)
  then show ?thesis
    by (simp add: ulp_exponent_def)
qed

lemma round_double_0 [simp]: "round_double 0 = 0"
  by (simp add: round_double_def round_half_even_def)

text \<open>The value of \<open>round_double\<close> at a given number, from the binade the number is in.\<close>

lemma round_double_evalI:
  assumes "pow2 k \<le> \<bar>x\<bar>" "\<bar>x\<bar> < pow2 (k + 1)"
    and "of_int (round_half_even (x / pow2 (max (k - 52) (- 1074))))
           * pow2 (max (k - 52) (- 1074)) = y"
  shows "round_double x = y"
  using assms(3) by (simp add: round_double_def ulp_exponent_eqI [OF assms(1,2)])

lemma round_double_1 [simp]: "round_double 1 = 1"
  by (rule round_double_evalI [where k = 0]) (simp_all add: pow2_def round_half_even_def)

lemma round_double_2 [simp]: "round_double 2 = 2"
  by (rule round_double_evalI [where k = 1]) (simp_all add: pow2_def round_half_even_def)

lemma round_double_3 [simp]: "round_double 3 = 3"
  by (rule round_double_evalI [where k = 1]) (simp_all add: pow2_def round_half_even_def)

lemma round_double_4 [simp]: "round_double 4 = 4"
  by (rule round_double_evalI [where k = 2]) (simp_all add: pow2_def round_half_even_def)

lemma round_double_5_2 [simp]: "round_double (5 / 2) = 5 / 2"
  by (rule round_double_evalI [where k = 1]) (simp_all add: pow2_def round_half_even_def)

lemma round_double_epoch [simp]: "round_double 1700000000 = 1700000000"
  by (rule round_double_evalI [where k = 30]) (simp_all add: pow2_def round_half_even_def)

text \<open>A difference that is rounded back onto the timestamp it was taken from.\<close>

lemma round_double_epoch_less [simp]: "round_double (1700000000 - 1 / 2 ^ 30) = 1700000000"
  by (rule round_double_evalI [where k = 30]) (simp_all add: pow2_def round_half_even_def)



lemma float_sub_epoch_tiny: "float_sub 1700000000 tiny_discard = 1700000000"
  by (simp only: float_sub_def tiny_discard_def round_double_epoch_less)

lemma round_half_even_of_int [simp]: "round_half_even (of_int n) = n"
  by (simp add: round_half_even_def)




text \<open>Rounding is odd and monotone.\<close>

lemma ulp_exponent_minus [simp]: "ulp_exponent (- x) = ulp_exponent x"
  by (simp add: ulp_exponent_def)





lemma pow2_nonneg [simp]: "0 \<le> pow2 e"
  using pow2_pos [of e] by linarith




lemma round_half_even_0 [simp]: "round_half_even 0 = 0"
  using round_half_even_of_int [of 0] by simp





lemma float_sub_self [simp]: "float_sub x x = 0"
  by (simp add: float_sub_def)



section \<open>The loop, pass by pass\<close>

lemma merge_loop_Continue:
  "merge_step e ks ss s = Continue s' \<Longrightarrow> merge_loop e ks ss s = merge_loop e ks ss s'"
  by (subst merge_loop.simps) simp

lemma merge_loop_Return:
  "merge_step e ks ss s = Return out \<Longrightarrow> merge_loop e ks ss s = Inr out"
  by (subst merge_loop.simps) simp

lemma merge_loop_Raise:
  "merge_step e ks ss s = Raise err \<Longrightarrow> merge_loop e ks ss s = Inl err"
  by (subst merge_loop.simps) simp

text \<open>A pass goes round again in two ways: it applies a key event or it emits a frame.\<close>

lemma merge_step_Continue_cases:
  assumes "merge_step e ks ss s = Continue s'"
  obtains
    (key) "si s < length ss" "key_due ks ss s"
          "down (ks ! ki s) \<or> key_code (ks ! ki s) \<in> cur_keys s"
          "s' = s\<lparr>ki := ki s + 1, cur_keys := apply_key_event (cur_keys s) (ks ! ki s)\<rparr>"
  | (frame) "si s < length ss" "\<not> key_due ks ss s"
          "ScreenEvent.timestamp (ss ! si s) \<le> e"
          "s' = s\<lparr>si := si s + 1,
                  data_out := data_out s @
                    [\<lparr>DatasetItem.screen = ScreenEvent.screen (ss ! si s),
                      DatasetItem.key_codes = cur_keys s,
                      DatasetItem.timestamp = ScreenEvent.timestamp (ss ! si s)\<rparr>]\<rparr>"
  using assms
  by (auto simp: merge_step_def key_due_def apply_key_event_def Let_def split: if_splits)

text \<open>It leaves the loop when the frames are exhausted or at the first frame past the cutoff.\<close>

lemma merge_step_Return_cases:
  assumes "merge_step e ks ss s = Return out"
  obtains
    (exhausted) "length ss \<le> si s" "out = data_out s"
  | (cutoff) "si s < length ss" "\<not> key_due ks ss s"
          "ScreenEvent.timestamp (ss ! si s) > e" "out = data_out s"
  using assms
  by (auto simp: merge_step_def key_due_def Let_def split: if_splits)

text \<open>It raises exactly on a release of a key that is not in the active set.\<close>

lemma merge_step_Raise_iff:
  "merge_step e ks ss s = Raise err \<longleftrightarrow> err = KeyError \<and> up_without_down ks ss s"
  by (auto simp: merge_step_def up_without_down_def Let_def split: if_splits)


lemma merge_iter_Continue:
  "merge_iter n e ks ss s = Continue s' \<Longrightarrow> merge_loop e ks ss s = merge_loop e ks ss s'"
proof (induction n arbitrary: s)
  case 0
  then show ?case by simp
next
  case (Suc n)
  then show ?case
    by (cases "merge_step e ks ss s") (simp_all add: merge_loop_Continue)
qed





text \<open>A run that raises has reached a state whose next pass raises.\<close>

lemma merge_loop_Inl_state:
  "merge_loop e ks ss s = Inl err \<Longrightarrow>
     \<exists>n s'. merge_iter n e ks ss s = Continue s' \<and> merge_step e ks ss s' = Raise err"
proof (induction e ks ss s rule: merge_loop.induct)
  case (1 e ks ss s)
  show ?case
  proof (cases "merge_step e ks ss s")
    case (Continue s1)
    with "1.prems" have "merge_loop e ks ss s1 = Inl err"
      by (simp add: merge_loop_Continue)
    from "1.IH" [OF Continue this] obtain n s' where
      "merge_iter n e ks ss s1 = Continue s'" "merge_step e ks ss s' = Raise err"
      by blast
    with Continue have "merge_iter (Suc n) e ks ss s = Continue s'
                        \<and> merge_step e ks ss s' = Raise err"
      by simp
    then show ?thesis by blast
  next
    case (Return r)
    with "1.prems" show ?thesis by (simp add: merge_loop_Return)
  next
    case (Raise err')
    with "1.prems" have "merge_iter 0 e ks ss s = Continue s \<and> merge_step e ks ss s = Raise err"
      by (simp add: merge_loop_Raise)
    then show ?thesis by blast
  qed
qed

section \<open>The output is a prefix of the frames\<close>

lemma item_frame_of_frame [simp]:
  "item_frame \<lparr>DatasetItem.screen = ScreenEvent.screen f, DatasetItem.key_codes = K,
                DatasetItem.timestamp = ScreenEvent.timestamp f\<rparr> = (f :: 'img ScreenEvent)"
  by (cases f) (simp add: item_frame_def)

lemma item_frame_sel [simp]:
  "ScreenEvent.screen (item_frame x) = DatasetItem.screen x"
  "ScreenEvent.timestamp (item_frame x) = DatasetItem.timestamp x"
  by (simp_all add: item_frame_def)

text \<open>
  From any state, the loop appends to its output items for a run of consecutive frames
  that starts at the frame cursor, and each of these frames is at or before the cutoff.
\<close>

lemma merge_loop_frames:
  "merge_loop e ks ss s = Inr out \<Longrightarrow>
     \<exists>n. map item_frame out = map item_frame (data_out s) @ take n (drop (si s) ss)
        \<and> (\<forall>f \<in> set (take n (drop (si s) ss)). ScreenEvent.timestamp f \<le> e)"
proof (induction e ks ss s rule: merge_loop.induct)
  case (1 e ks ss s)
  show ?case
  proof (cases "merge_step e ks ss s")
    case (Continue s')
    with "1.prems" have run: "merge_loop e ks ss s' = Inr out"
      by (simp add: merge_loop_Continue)
    from "1.IH" [OF Continue run] obtain n where
      n: "map item_frame out = map item_frame (data_out s') @ take n (drop (si s') ss)"
         "\<forall>f \<in> set (take n (drop (si s') ss)). ScreenEvent.timestamp f \<le> e"
      by blast
    from Continue show ?thesis
    proof (cases rule: merge_step_Continue_cases)
      case key
      with n show ?thesis by auto
    next
      case frame
      from frame(1) have "take (Suc n) (drop (si s) ss) = ss ! si s # take n (drop (Suc (si s)) ss)"
        by (simp add: Cons_nth_drop_Suc [symmetric])
      with n frame show ?thesis
        by (intro exI [of _ "Suc n"]) simp
    qed
  next
    case (Return r)
    with "1.prems" have "out = data_out s"
      by (auto simp: merge_loop_Return elim: merge_step_Return_cases)
    then show ?thesis by (intro exI [of _ 0]) simp
  next
    case (Raise err)
    with "1.prems" show ?thesis by (simp add: merge_loop_Raise)
  qed
qed

lemma to_training_data_frames:
  assumes "to_training_data d ks ss = Inr out"
  shows "ss \<noteq> []"
    and "map item_frame out = take (length out) ss"
    and "\<forall>f \<in> set (take (length out) ss).
           ScreenEvent.timestamp f \<le> float_sub (ScreenEvent.timestamp (last ss)) d"
proof -
  from assms show ne: "ss \<noteq> []"
    by (auto simp: to_training_data_def split: if_splits)
  with assms have "merge_loop (float_sub (ScreenEvent.timestamp (last ss)) d) ks ss init_state = Inr out"
    by (simp add: to_training_data_def)
  from merge_loop_frames [OF this] obtain n where
    n: "map item_frame out = take n ss"
       "\<forall>f \<in> set (take n ss). ScreenEvent.timestamp f \<le> float_sub (ScreenEvent.timestamp (last ss)) d"
    by (auto simp: init_state_def)
  from n(1) have "length out = length (take n ss)"
    by (metis length_map)
  then have "take (length out) ss = take n ss"
    by (metis append_eq_conv_conj append_take_drop_id)
  with n show "map item_frame out = take (length out) ss"
    and "\<forall>f \<in> set (take (length out) ss).
           ScreenEvent.timestamp f \<le> float_sub (ScreenEvent.timestamp (last ss)) d"
    by simp_all
qed

lemma to_training_data_nth:
  assumes "to_training_data d ks ss = Inr out" and "i < length out"
  shows "item_frame (out ! i) = ss ! i"
proof -
  from assms(2) have "item_frame (out ! i) = map item_frame out ! i"
    by simp
  also from assms(2) have "\<dots> = ss ! i"
    by (simp add: to_training_data_frames(2) [OF assms(1)])
  finally show ?thesis .
qed

lemma length_filter_take_le: "length (filter P (take n xs)) \<le> length (filter P xs)"
proof -
  have "length (filter P xs) = length (filter P (take n xs @ drop n xs))"
    by simp
  also have "\<dots> = length (filter P (take n xs)) + length (filter P (drop n xs))"
    by (simp only: filter_append length_append)
  finally show ?thesis
    by simp
qed

section \<open>The active set on time-ordered inputs\<close>

text \<open>In a time-ordered key sequence, the events strictly before a time are a prefix.\<close>

lemma filter_sorted_prefix:
  assumes sorted: "sorted (map KeyEvent.timestamp ks)"
    and le: "k \<le> length ks"
    and before: "\<forall>j < k. KeyEvent.timestamp (ks ! j) < t"
    and after: "k < length ks \<longrightarrow> \<not> KeyEvent.timestamp (ks ! k) < t"
  shows "filter (\<lambda>ev. KeyEvent.timestamp ev < t) ks = take k ks"
proof -
  let ?P = "\<lambda>ev. KeyEvent.timestamp ev < t"
  have "?P x" if "x \<in> set (take k ks)" for x
  proof -
    from that obtain j where "j < length (take k ks)" "x = take k ks ! j"
      by (auto simp: in_set_conv_nth)
    with before show ?thesis by simp
  qed
  then have 1: "filter ?P (take k ks) = take k ks"
    by simp
  have "\<not> ?P x" if "x \<in> set (drop k ks)" for x
  proof -
    from that obtain j where j: "j < length (drop k ks)" "x = drop k ks ! j"
      by (auto simp: in_set_conv_nth)
    then have lt: "k + j < length ks" and x: "x = ks ! (k + j)"
      by simp_all
    from lt have k: "k < length ks" by simp
    from sorted lt have "map KeyEvent.timestamp ks ! k \<le> map KeyEvent.timestamp ks ! (k + j)"
      by (intro sorted_nth_mono) simp_all
    with lt k have "KeyEvent.timestamp (ks ! k) \<le> KeyEvent.timestamp (ks ! (k + j))"
      by simp
    with after k x show ?thesis by simp
  qed
  then have 2: "filter ?P (drop k ks) = []"
    by simp
  have "filter ?P ks = filter ?P (take k ks @ drop k ks)"
    by simp
  also have "\<dots> = take k ks"
    by (simp only: filter_append 1 2 append_Nil2)
  finally show ?thesis .
qed

text \<open>Every pass that goes round again keeps the invariant.\<close>

lemma merge_inv_step:
  assumes sk: "sorted (map KeyEvent.timestamp ks)"
    and sf: "sorted (map ScreenEvent.timestamp ss)"
    and inv: "merge_inv ks ss s"
    and step: "merge_step e ks ss s = Continue s'"
  shows "merge_inv ks ss s'"
  using step
proof (cases rule: merge_step_Continue_cases)
  case key
  from key(2) have lt: "ki s < length ks"
    and due: "KeyEvent.timestamp (ks ! ki s) < ScreenEvent.timestamp (ss ! si s)"
    by (simp_all add: key_due_def)
  from lt have "take (Suc (ki s)) ks = take (ki s) ks @ [ks ! ki s]"
    by (simp add: take_Suc_conv_app_nth)
  with inv have "foldl apply_key_event {} (take (Suc (ki s)) ks)
                 = apply_key_event (cur_keys s) (ks ! ki s)"
    by (simp add: merge_inv_def)
  moreover from inv due key(1)
  have "\<forall>j < Suc (ki s). KeyEvent.timestamp (ks ! j) < ScreenEvent.timestamp (ss ! si s)"
    by (auto simp: merge_inv_def less_Suc_eq)
  ultimately show ?thesis
    using inv lt key(4) by (simp add: merge_inv_def)
next
  case frame
  let ?t = "ScreenEvent.timestamp (ss ! si s)"
  from inv frame(1) have before: "\<forall>j < ki s. KeyEvent.timestamp (ks ! j) < ?t"
    by (simp add: merge_inv_def)
  from frame(2) have after: "ki s < length ks \<longrightarrow> \<not> KeyEvent.timestamp (ks ! ki s) < ?t"
    by (simp add: key_due_def)
  from inv have le: "ki s \<le> length ks"
    by (simp add: merge_inv_def)
  from filter_sorted_prefix [OF sk le before after] inv
  have new: "cur_keys s = active_key_set ks ?t"
    by (simp add: merge_inv_def active_key_set_def)
  have "\<forall>j < ki s. KeyEvent.timestamp (ks ! j) < ScreenEvent.timestamp (ss ! Suc (si s))"
    if "Suc (si s) < length ss"
  proof -
    from sf that
    have "map ScreenEvent.timestamp ss ! si s \<le> map ScreenEvent.timestamp ss ! Suc (si s)"
      by (intro sorted_nth_mono) simp_all
    with that have "?t \<le> ScreenEvent.timestamp (ss ! Suc (si s))"
      by simp
    with before show ?thesis
      by fastforce
  qed
  with inv new frame(4) show ?thesis
    by (simp add: merge_inv_def)
qed

lemma merge_loop_keys:
  assumes sk: "sorted (map KeyEvent.timestamp ks)"
    and sf: "sorted (map ScreenEvent.timestamp ss)"
  shows "merge_loop e ks ss s = Inr out \<Longrightarrow> merge_inv ks ss s \<Longrightarrow>
         \<forall>item \<in> set out. key_codes item = active_key_set ks (DatasetItem.timestamp item)"
  using assms
proof (induction e ks ss s rule: merge_loop.induct)
  case (1 e ks ss s)
  show ?case
  proof (cases "merge_step e ks ss s")
    case (Continue s')
    with "1.prems" have "merge_loop e ks ss s' = Inr out"
      by (simp add: merge_loop_Continue)
    moreover from "1.prems" Continue have "merge_inv ks ss s'"
      by (blast intro: merge_inv_step)
    ultimately show ?thesis
      using "1.IH" [OF Continue] "1.prems" by blast
  next
    case (Return r)
    with "1.prems" have "out = data_out s"
      by (auto simp: merge_loop_Return elim: merge_step_Return_cases)
    with "1.prems" show ?thesis
      by (simp add: merge_inv_def)
  next
    case (Raise err)
    with "1.prems" show ?thesis by (simp add: merge_loop_Raise)
  qed
qed

lemma merge_inv_init: "merge_inv ks ss init_state"
  by (simp add: merge_inv_def init_state_def)

section \<open>The cutoff\<close>



section \<open>The active set in terms of the events\<close>

lemma foldl_apply_key_event_mem:
  "k \<in> foldl apply_key_event S es \<longleftrightarrow>
     (if filter (\<lambda>ev. key_code ev = k) es = [] then k \<in> S
      else down (last (filter (\<lambda>ev. key_code ev = k) es)))"
proof (induction es rule: rev_induct)
  case Nil
  then show ?case by simp
next
  case (snoc ev es)
  then show ?case
    by (auto simp: apply_key_event_def)
qed

lemma key_held_replay:
  "k \<in> foldl apply_key_event {} es \<longleftrightarrow> key_held es k"
  by (simp add: foldl_apply_key_event_mem key_held_def split: list.splits)

lemma replay_inv_init: "replay_inv e ks ss init_state"
  by (simp add: replay_inv_def init_state_def)

lemma replay_inv_step:
  assumes "replay_inv e ks ss s" "merge_step e ks ss s = Continue s'"
  shows "replay_inv e ks ss s'"
  using assms(2)
proof (cases rule: merge_step_Continue_cases)
  case key
  from key(2) have lt: "ki s < length ks"
    by (simp add: key_due_def)
  then have "take (Suc (ki s)) ks = take (ki s) ks @ [ks ! ki s]"
    by (simp add: take_Suc_conv_app_nth)
  with assms(1) lt key(4) show ?thesis
    by (simp add: replay_inv_def)
next
  case frame
  from frame(1) have "take (Suc (si s)) ss = take (si s) ss @ [ss ! si s]"
    by (simp add: take_Suc_conv_app_nth)
  with assms(1) frame show ?thesis
    by (simp add: replay_inv_def)
qed

lemma replay_inv_iter:
  "replay_inv e ks ss s \<Longrightarrow> merge_iter n e ks ss s = Continue s' \<Longrightarrow> replay_inv e ks ss s'"
proof (induction n arbitrary: s)
  case 0
  then show ?case by simp
next
  case (Suc n)
  show ?case
  proof (cases "merge_step e ks ss s")
    case (Continue s1)
    with Suc.prems(1) have "replay_inv e ks ss s1"
      by (blast intro: replay_inv_step)
    moreover from Suc.prems(2) Continue have "merge_iter n e ks ss s1 = Continue s'"
      by simp
    ultimately show ?thesis
      by (rule Suc.IH)
  next
    case (Return out)
    with Suc.prems(2) show ?thesis by simp
  next
    case (Raise err)
    with Suc.prems(2) show ?thesis by simp
  qed
qed

text \<open>
  On time-ordered key events: when an unmatched "up" is strictly earlier than a frame that
  the loop gets to, a run from a state that has not passed either of them raises.
\<close>

lemma merge_loop_unmatched_up:
  "sorted (map KeyEvent.timestamp ks) \<Longrightarrow> up_unmatched ks j \<Longrightarrow>
   event_before_reached_frame e ks ss j i \<Longrightarrow>
   replay_inv e ks ss s \<Longrightarrow> ki s \<le> j \<Longrightarrow> si s \<le> i \<Longrightarrow>
   merge_loop e ks ss s = Inl KeyError"
proof (induction e ks ss s rule: merge_loop.induct)
  case (1 e ks ss s)
  note sk = "1.prems"(1) and up = "1.prems"(2) and ev = "1.prems"(3)
    and inv = "1.prems"(4) and kj = "1.prems"(5) and sj = "1.prems"(6)
  from ev have j: "j < length ks" and i: "i < length ss"
    and lt: "KeyEvent.timestamp (ks ! j) < ScreenEvent.timestamp (ss ! i)"
    and reach: "\<forall>f \<in> set (take i ss). ScreenEvent.timestamp f \<le> e"
    by (simp_all add: event_before_reached_frame_def)
  have due: "key_due ks ss s" if "si s = i"
  proof -
    from sk kj j
    have "map KeyEvent.timestamp ks ! ki s \<le> map KeyEvent.timestamp ks ! j"
      by (intro sorted_nth_mono) simp_all
    with kj j have "KeyEvent.timestamp (ks ! ki s) \<le> KeyEvent.timestamp (ks ! j)"
      by simp
    with lt that kj j show ?thesis
      by (simp add: key_due_def)
  qed
  have within: "ScreenEvent.timestamp (ss ! si s) \<le> e" if "si s < i"
  proof -
    from that i have "ss ! si s \<in> set (take i ss)"
      by (auto simp: in_set_conv_nth intro!: exI [of _ "si s"])
    with reach show ?thesis by blast
  qed
  show ?case
  proof (cases "merge_step e ks ss s")
    case (Continue s')
    then have eq: "merge_loop e ks ss s = merge_loop e ks ss s'"
      by (rule merge_loop_Continue)
    from inv Continue have inv': "replay_inv e ks ss s'"
      by (rule replay_inv_step)
    from Continue show ?thesis
    proof (cases rule: merge_step_Continue_cases)
      case key
      have "ki s \<noteq> j"
      proof
        assume "ki s = j"
        with up key(3) have "key_code (ks ! j) \<in> cur_keys s"
          by (simp add: up_unmatched_def)
        with inv \<open>ki s = j\<close> have "key_held (take j ks) (key_code (ks ! j))"
          by (simp add: replay_inv_def key_held_replay)
        with up show False
          by (simp add: up_unmatched_def)
      qed
      with kj key(4) have "ki s' \<le> j" "si s' \<le> i"
        using sj by simp_all
      with "1.IH" [OF Continue sk up ev inv'] eq show ?thesis
        by simp
    next
      case frame
      from frame(2) due have "si s \<noteq> i"
        by blast
      with sj frame(4) have "ki s' \<le> j" "si s' \<le> i"
        using kj by simp_all
      with "1.IH" [OF Continue sk up ev inv'] eq show ?thesis
        by simp
    qed
  next
    case (Return out)
    then show ?thesis
    proof (cases rule: merge_step_Return_cases)
      case exhausted
      with sj i show ?thesis by simp
    next
      case cutoff
      from cutoff(2) due have "si s \<noteq> i"
        by blast
      with sj have "si s < i"
        by simp
      from within [OF this] cutoff(3) show ?thesis
        by simp
    qed
  next
    case (Raise err)
    then show ?thesis
      by (simp add: merge_loop_Raise merge_step_Raise_iff)
  qed
qed

text \<open>On a non-empty frame sequence the method raises nothing but \<^verbatim>\<open>KeyError\<close>.\<close>

lemma to_training_data_cases:
  assumes "ss \<noteq> []"
  shows "to_training_data d ks ss = Inl KeyError \<or> (\<exists>out. to_training_data d ks ss = Inr out)"
proof (cases "to_training_data d ks ss")
  case (Inl err)
  with assms
  have "merge_loop (float_sub (ScreenEvent.timestamp (last ss)) d) ks ss
          (init_state :: 'a merge_state) = Inl err"
    by (simp add: to_training_data_def)
  from merge_loop_Inl_state [OF this] have "err = KeyError"
    by (auto simp: merge_step_Raise_iff)
  with Inl show ?thesis by simp
next
  case (Inr out)
  then show ?thesis by simp
qed

section \<open>The claims\<close>

lemmas run_defs =
  to_training_data_def init_state_def merge_loop.simps merge_step_def float_sub_def

lemma scenario_run:
  "to_training_data 0 scenario_keys scenario_frames = Inr scenario_items"
  by (simp add: run_defs scenario_keys_def scenario_frames_def scenario_items_def)

lemma scenario_run_3_2:
  "to_training_data (3 / 2) scenario_keys scenario_frames = Inr (take 3 scenario_items)"
  by (simp add: run_defs scenario_keys_def scenario_frames_def scenario_items_def)

lemma scenario_sorted:
  "sorted (map KeyEvent.timestamp scenario_keys)"
  "sorted (map ScreenEvent.timestamp scenario_frames)"
  by (simp_all add: scenario_keys_def scenario_frames_def)

lemma scenario_frames_not_Nil: "scenario_frames \<noteq> []"
  by (simp add: scenario_frames_def)

lemma epoch_run:
  "to_training_data tiny_discard [] epoch_frame
   = Inr [\<lparr>DatasetItem.screen = 0, key_codes = {}, DatasetItem.timestamp = 1700000000\<rparr>]"
  by (simp add: to_training_data_def init_state_def merge_loop.simps merge_step_def
      float_sub_epoch_tiny epoch_frame_def)

lemma to_training_data_Inr:
  assumes "to_training_data d ks ss = Inr out"
  shows "merge_loop (float_sub (ScreenEvent.timestamp (last ss)) d) ks ss init_state = Inr out"
  using assms by (auto simp: to_training_data_def split: if_splits)

text \<open>
  C1. On time-ordered key events and time-ordered frames, the keys of the item emitted for a
  retained frame are the active key set of the specification at that frame's timestamp: the
  replay, in arrival order, of exactly the events strictly earlier than the frame.
\<close>

theorem merge_keys_are_active_key_set:
  assumes "sorted (map KeyEvent.timestamp ks)"
    and "sorted (map ScreenEvent.timestamp ss)"
    and "to_training_data d ks ss = Inr out"
    and "i < length out"
  shows "key_codes (out ! i) = active_key_set ks (ScreenEvent.timestamp (ss ! i))"
proof -
  from merge_loop_keys [OF assms(1,2) to_training_data_Inr [OF assms(3)] merge_inv_init] assms(4)
  have "key_codes (out ! i) = active_key_set ks (DatasetItem.timestamp (out ! i))"
    by simp
  moreover from to_training_data_nth [OF assms(3,4)]
  have "DatasetItem.timestamp (out ! i) = ScreenEvent.timestamp (ss ! i)"
    by (metis item_frame_sel(2))
  ultimately show ?thesis
    by simp
qed

theorem merge_keys_are_active_key_set_witness:
  "sorted (map KeyEvent.timestamp scenario_keys)
   \<and> sorted (map ScreenEvent.timestamp scenario_frames)
   \<and> to_training_data 0 scenario_keys scenario_frames = Inr scenario_items
   \<and> 2 < length scenario_items
   \<and> key_codes (scenario_items ! 2)
       = active_key_set scenario_keys (ScreenEvent.timestamp (scenario_frames ! 2))
   \<and> key_codes (scenario_items ! 2) = {''k''}"
proof -
  have i: "2 < length scenario_items"
    by (simp add: scenario_items_def)
  have k: "key_codes (scenario_items ! 2) = {''k''}"
    by (simp add: scenario_items_def)
  from merge_keys_are_active_key_set [OF scenario_sorted scenario_run i] scenario_sorted
    scenario_run i k
  show ?thesis
    by simp
qed

text \<open>
  C2. The claim is that the merge returns an empty dataset for an empty frame sequence.
  The method reads the last frame before the loop, so on an empty frame sequence it raises
  \<^verbatim>\<open>IndexError\<close>, whatever the key events are.
\<close>

theorem to_training_data_no_frames:
  "to_training_data d ks [] = Inl IndexError"
  by (simp add: to_training_data_def)

text \<open>
  C3. The claim is that the frame rate for the export is \<open>(count - 1) / (last - first)\<close>.
  The method divides the number of items itself by the time span: two retained frames one
  second apart are exported at 2 frames per second, where the claim's formula gives 1. This
  is shown with nothing discarded, and with the recorder's default of 3 seconds discarded
  from frames at \<open>t = 0, 1, 4\<close>.
\<close>

theorem record_data_two_frames_rate:
  "record_data 0 []
     [\<lparr>ScreenEvent.screen = a, ScreenEvent.timestamp = 0\<rparr>,
      \<lparr>ScreenEvent.screen = b, ScreenEvent.timestamp = 1\<rparr>] = Inr (Some 2)
   \<and> record_data 3 []
     [\<lparr>ScreenEvent.screen = a, ScreenEvent.timestamp = 0\<rparr>,
      \<lparr>ScreenEvent.screen = b, ScreenEvent.timestamp = 1\<rparr>,
      \<lparr>ScreenEvent.screen = c, ScreenEvent.timestamp = 4\<rparr>] = Inr (Some 2)"
  by (simp add: record_data_def save_avi_video_def float_truediv_def run_defs)

text \<open>
  C4. The claim is that the frame rate computation is guarded when fewer than two items
  are retained. An empty dataset is skipped by \<^verbatim>\<open>record\<close>, but a dataset of one item
  reaches the division with a time span of zero: \<^verbatim>\<open>ZeroDivisionError\<close>. This is shown for
  a single frame, whatever float its timestamp is, with nothing discarded, and for two
  frames 3 seconds apart with the recorder's default of 3 seconds discarded.
\<close>

theorem record_data_one_item_fails:
  assumes "is_double t"
  shows "record_data 0 [] [\<lparr>ScreenEvent.screen = a, ScreenEvent.timestamp = t\<rparr>]
     = Inl ZeroDivisionError
   \<and> record_data 3 []
       [\<lparr>ScreenEvent.screen = a, ScreenEvent.timestamp = 0\<rparr>,
        \<lparr>ScreenEvent.screen = b, ScreenEvent.timestamp = 3\<rparr>] = Inl ZeroDivisionError"
proof -
  from assms have "round_double t = t"
    by (simp add: is_double_def)
  then show ?thesis
    by (simp add: record_data_def save_avi_video_def float_truediv_def run_defs)
qed

theorem record_data_one_item_fails_witness:
  "is_double 1700000000
   \<and> record_data 0 [] [\<lparr>ScreenEvent.screen = (0::nat), ScreenEvent.timestamp = 1700000000\<rparr>]
       = Inl ZeroDivisionError"
proof -
  have d: "is_double 1700000000"
    by (simp add: is_double_def)
  from record_data_one_item_fails [OF d, where a = "0::nat"] d show ?thesis
    by simp
qed




text \<open>
  C6, as the claim states it, fails: the method compares the frames with the rounded
  cutoff. For the single frame at 1700000000 and a discard duration of \<open>1 / 2 ^ 30\<close> the
  merge returns one item, and no frame is at or before the exact difference.
\<close>

theorem exact_cutoff_counterexample:
  "to_training_data tiny_discard [] epoch_frame
     = Inr [\<lparr>DatasetItem.screen = 0, key_codes = {}, DatasetItem.timestamp = 1700000000\<rparr>]
   \<and> length [\<lparr>DatasetItem.screen = 0 :: nat, key_codes = {},
               DatasetItem.timestamp = 1700000000\<rparr>] = 1
   \<and> length (filter (\<lambda>f. ScreenEvent.timestamp f
                           \<le> ScreenEvent.timestamp (last epoch_frame) - tiny_discard)
                 epoch_frame) = 0"
proof -
  have "length (filter (\<lambda>f. ScreenEvent.timestamp f
                           \<le> ScreenEvent.timestamp (last epoch_frame) - tiny_discard)
                 epoch_frame) = 0"
    by (simp add: epoch_frame_def tiny_discard_def)
  with epoch_run show ?thesis
    by simp
qed

text \<open>
  C6, amended. When the merge returns a dataset, its length is at most the number of frames
  whose timestamp is at or before the cutoff that the method computes: the float nearest to
  the last frame's timestamp minus the discard duration.
\<close>

theorem output_length_within_cutoff:
  assumes "to_training_data d ks ss = Inr out"
  shows "length out \<le> length (filter (\<lambda>f. ScreenEvent.timestamp f
                                        \<le> float_sub (ScreenEvent.timestamp (last ss)) d) ss)"
proof -
  let ?P = "\<lambda>f. ScreenEvent.timestamp f \<le> float_sub (ScreenEvent.timestamp (last ss)) d"
  from to_training_data_frames [OF assms]
  have fr: "map item_frame out = take (length out) ss"
    and le: "\<forall>f \<in> set (take (length out) ss). ?P f"
    by simp_all
  from fr have "length out = length (take (length out) ss)"
    by (metis length_map)
  also from le have "\<dots> = length (filter ?P (take (length out) ss))"
    by simp
  also have "\<dots> \<le> length (filter ?P ss)"
    by (rule length_filter_take_le)
  finally show ?thesis .
qed

theorem output_length_within_cutoff_witness:
  "to_training_data (3 / 2) scenario_keys scenario_frames = Inr (take 3 scenario_items)
   \<and> length (take 3 scenario_items) = 3
   \<and> 3 \<le> length (filter (\<lambda>f. ScreenEvent.timestamp f
                               \<le> float_sub (ScreenEvent.timestamp (last scenario_frames))
                                    (3 / 2))
                     scenario_frames)"
proof -
  have len: "length (take 3 scenario_items) = 3"
    by (simp add: scenario_items_def)
  from output_length_within_cutoff [OF scenario_run_3_2] scenario_run_3_2 len show ?thesis
    by simp
qed

text \<open>
  C7. Scenario 1 of the specification: frames at \<open>t = 0, 1, 2, 3, 4\<close>, one key pressed at
  \<open>0.5\<close> and released at \<open>2.5\<close>, nothing discarded. The merge returns five items, with the
  active key sets \<open>{}\<close>, \<open>{k}\<close>, \<open>{k}\<close>, \<open>{}\<close>, \<open>{}\<close>.
\<close>

theorem scenario_1_output:
  "to_training_data 0
     [\<lparr>key_code = k, KeyEvent.timestamp = 0.5, down = True\<rparr>,
      \<lparr>key_code = k, KeyEvent.timestamp = 2.5, down = False\<rparr>]
     [\<lparr>ScreenEvent.screen = s0, ScreenEvent.timestamp = 0\<rparr>,
      \<lparr>ScreenEvent.screen = s1, ScreenEvent.timestamp = 1\<rparr>,
      \<lparr>ScreenEvent.screen = s2, ScreenEvent.timestamp = 2\<rparr>,
      \<lparr>ScreenEvent.screen = s3, ScreenEvent.timestamp = 3\<rparr>,
      \<lparr>ScreenEvent.screen = s4, ScreenEvent.timestamp = 4\<rparr>]
   = Inr [\<lparr>DatasetItem.screen = s0, key_codes = {}, DatasetItem.timestamp = 0\<rparr>,
          \<lparr>DatasetItem.screen = s1, key_codes = {k}, DatasetItem.timestamp = 1\<rparr>,
          \<lparr>DatasetItem.screen = s2, key_codes = {k}, DatasetItem.timestamp = 2\<rparr>,
          \<lparr>DatasetItem.screen = s3, key_codes = {}, DatasetItem.timestamp = 3\<rparr>,
          \<lparr>DatasetItem.screen = s4, key_codes = {}, DatasetItem.timestamp = 4\<rparr>]"
  by (simp add: run_defs)

text \<open>
  C8, as the claim states it, fails in its last clause when "a matching prior down" is a
  "down" that each "up" can be paired with: the active keys are a set, so a second "down"
  of a held key adds nothing, and of two "up" events that follow two "down" events of one
  key the second raises \<^verbatim>\<open>KeyError\<close>.
\<close>

theorem repeated_down_counterexample:
  "length repeated_down_keys = 4
   \<and> down (repeated_down_keys ! 0) \<and> down (repeated_down_keys ! 1)
   \<and> up_has_own_down repeated_down_keys 2 \<and> up_has_own_down repeated_down_keys 3
   \<and> to_training_data 0 repeated_down_keys scenario_frames = Inl KeyError"
  by (simp add: repeated_down_keys_def up_has_own_down_def run_defs scenario_frames_def)

text \<open>
  C8, amended. On a non-empty frame sequence the merge raises \<^verbatim>\<open>KeyError\<close> exactly when
  the loop comes to process an "up" event (one strictly earlier than the current frame)
  whose key is not held, that is, when the last earlier event of the same key is not a
  "down"; the event is not ignored. On time-ordered key events this is exactly when some
  unmatched "up" is strictly earlier than a frame that has no frame past the cutoff before
  it. When every "up" in the input has a "down" as the last earlier event of its key, the
  merge returns a dataset; and it raises nothing but \<^verbatim>\<open>KeyError\<close>.
\<close>

theorem unmatched_up_raises:
  assumes "ss \<noteq> []"
  shows "(to_training_data d ks ss = Inl KeyError \<longleftrightarrow>
            (\<exists>n s. merge_iter n (float_sub (ScreenEvent.timestamp (last ss)) d) ks ss init_state
                     = Continue s
                  \<and> si s < length ss \<and> key_due ks ss s \<and> up_unmatched ks (ki s)))
       \<and> (to_training_data d ks ss = Inl KeyError \<longrightarrow>
            (\<exists>j i. up_unmatched ks j
                  \<and> event_before_reached_frame
                       (float_sub (ScreenEvent.timestamp (last ss)) d) ks ss j i))
       \<and> (sorted (map KeyEvent.timestamp ks)
          \<and> (\<exists>j i. up_unmatched ks j
                  \<and> event_before_reached_frame
                       (float_sub (ScreenEvent.timestamp (last ss)) d) ks ss j i) \<longrightarrow>
            to_training_data d ks ss = Inl KeyError)
       \<and> ((\<forall>j < length ks. \<not> up_unmatched ks j) \<longrightarrow>
            (\<exists>out. to_training_data d ks ss = Inr out))
       \<and> (to_training_data d ks ss = Inl KeyError
          \<or> (\<exists>out. to_training_data d ks ss = Inr out))"
proof -
  let ?e = "float_sub (ScreenEvent.timestamp (last ss)) d"
  from assms have run: "to_training_data d ks ss = merge_loop ?e ks ss init_state"
    by (simp add: to_training_data_def)
  have raised: "\<exists>n s. merge_iter n ?e ks ss init_state = Continue s
                  \<and> si s < length ss \<and> key_due ks ss s \<and> up_unmatched ks (ki s)
                  \<and> event_before_reached_frame ?e ks ss (ki s) (si s)"
    if "to_training_data d ks ss = Inl KeyError"
  proof -
    from that run have "merge_loop ?e ks ss (init_state :: 'a merge_state) = Inl KeyError"
      by simp
    from merge_loop_Inl_state [OF this] obtain n and s :: "'a merge_state"
      where iter: "merge_iter n ?e ks ss init_state = Continue s"
        and up: "up_without_down ks ss s"
      by (auto simp: merge_step_Raise_iff)
    from replay_inv_iter [OF replay_inv_init iter] have inv: "replay_inv ?e ks ss s" .
    from up inv have "\<not> key_held (take (ki s) ks) (key_code (ks ! ki s))"
      by (simp add: up_without_down_def replay_inv_def key_held_replay [symmetric])
    with up have "up_unmatched ks (ki s)"
      by (simp add: up_without_down_def up_unmatched_def)
    moreover from up have "si s < length ss" "key_due ks ss s"
      by (simp_all add: up_without_down_def key_due_def)
    moreover from up inv have "event_before_reached_frame ?e ks ss (ki s) (si s)"
      by (simp add: up_without_down_def replay_inv_def event_before_reached_frame_def)
    ultimately show ?thesis
      using iter by blast
  qed
  have reached: "to_training_data d ks ss = Inl KeyError"
    if iter: "merge_iter n ?e ks ss init_state = Continue s"
      and "si s < length ss" "key_due ks ss s" "up_unmatched ks (ki s)" for n s
  proof -
    from replay_inv_iter [OF replay_inv_init iter] have inv: "replay_inv ?e ks ss s" .
    from that(4) inv have "key_code (ks ! ki s) \<notin> cur_keys s"
      by (simp add: up_unmatched_def replay_inv_def key_held_replay)
    with that(2-4) have "up_without_down ks ss s"
      by (simp add: up_without_down_def key_due_def up_unmatched_def)
    then have "merge_step ?e ks ss s = Raise KeyError"
      by (simp add: merge_step_Raise_iff)
    then have "merge_loop ?e ks ss s = Inl KeyError"
      by (rule merge_loop_Raise)
    with merge_iter_Continue [OF iter] run show ?thesis
      by simp
  qed
  have ordered: "to_training_data d ks ss = Inl KeyError"
    if "sorted (map KeyEvent.timestamp ks)" "up_unmatched ks j"
      "event_before_reached_frame ?e ks ss j i" for j i
  proof -
    have "merge_loop ?e ks ss (init_state :: 'a merge_state) = Inl KeyError"
      using that replay_inv_init
      by (rule merge_loop_unmatched_up) (simp_all add: init_state_def)
    with run show ?thesis
      by simp
  qed
  note cases = to_training_data_cases [OF assms, of d ks]
  have matched: "\<exists>out. to_training_data d ks ss = Inr out"
    if "\<forall>j < length ks. \<not> up_unmatched ks j"
  proof -
    have "to_training_data d ks ss \<noteq> Inl KeyError"
    proof
      assume "to_training_data d ks ss = Inl KeyError"
      from raised [OF this] obtain s :: "'a merge_state" where "up_unmatched ks (ki s)"
        by blast
      moreover from this have "ki s < length ks"
        by (simp add: up_unmatched_def)
      ultimately show False
        using that by blast
    qed
    with cases show ?thesis
      by blast
  qed
  from raised reached ordered matched cases show ?thesis
    by blast
qed

theorem unmatched_up_raises_witness:
  "scenario_frames \<noteq> []
   \<and> sorted (map KeyEvent.timestamp held_key_release)
   \<and> up_unmatched held_key_release 0
   \<and> event_before_reached_frame
        (float_sub (ScreenEvent.timestamp (last scenario_frames)) 0)
        held_key_release scenario_frames 0 1
   \<and> to_training_data 0 held_key_release scenario_frames = Inl KeyError
   \<and> (\<exists>n s. merge_iter n (float_sub (ScreenEvent.timestamp (last scenario_frames)) 0)
               held_key_release scenario_frames init_state = Continue s
            \<and> si s < length scenario_frames \<and> key_due held_key_release scenario_frames s
            \<and> up_unmatched held_key_release (ki s))
   \<and> \<not> up_unmatched scenario_keys 0 \<and> \<not> up_unmatched scenario_keys 1
   \<and> length scenario_keys = 2
   \<and> (\<exists>out. to_training_data 0 scenario_keys scenario_frames = Inr out)"
proof -
  have sk: "sorted (map KeyEvent.timestamp held_key_release)"
    by (simp add: held_key_release_def)
  have up: "up_unmatched held_key_release 0"
    by (simp add: up_unmatched_def held_key_release_def key_held_def)
  have ev: "event_before_reached_frame
        (float_sub (ScreenEvent.timestamp (last scenario_frames)) 0)
        held_key_release scenario_frames 0 1"
    by (simp add: event_before_reached_frame_def held_key_release_def scenario_frames_def
        float_sub_def)
  from unmatched_up_raises [OF scenario_frames_not_Nil, of 0 held_key_release] sk up ev
  have run: "to_training_data 0 held_key_release scenario_frames = Inl KeyError"
    by blast
  with unmatched_up_raises [OF scenario_frames_not_Nil, of 0 held_key_release]
  have st: "\<exists>n s. merge_iter n (float_sub (ScreenEvent.timestamp (last scenario_frames)) 0)
               held_key_release scenario_frames init_state = Continue s
            \<and> si s < length scenario_frames \<and> key_due held_key_release scenario_frames s
            \<and> up_unmatched held_key_release (ki s)"
    by blast
  have m: "\<not> up_unmatched scenario_keys 0" "\<not> up_unmatched scenario_keys 1"
    "length scenario_keys = 2"
    by (simp_all add: up_unmatched_def scenario_keys_def key_held_def)
  then have "\<forall>j < length scenario_keys. \<not> up_unmatched scenario_keys j"
    by (auto simp: less_Suc_eq numeral_2_eq_2)
  with unmatched_up_raises [OF scenario_frames_not_Nil, of 0 scenario_keys]
  have "\<exists>out. to_training_data 0 scenario_keys scenario_frames = Inr out"
    by blast
  with sk up ev run st m scenario_frames_not_Nil show ?thesis
    by blast
qed

text \<open>
  C9. When the merge returns a dataset, the dataset is an in-order prefix of the frames: it
  is no longer than the frame sequence, its \<open>i\<close>-th item has the screen and the timestamp
  of the \<open>i\<close>-th frame, and its timestamps are non-decreasing when the frames' are.
\<close>

theorem output_is_frame_prefix:
  assumes "to_training_data d ks ss = Inr out"
  shows "length out \<le> length ss
    \<and> (\<forall>i < length out.
          DatasetItem.screen (out ! i) = ScreenEvent.screen (ss ! i)
        \<and> DatasetItem.timestamp (out ! i) = ScreenEvent.timestamp (ss ! i))
    \<and> (sorted (map ScreenEvent.timestamp ss) \<longrightarrow> sorted (map DatasetItem.timestamp out))"
proof -
  from to_training_data_frames(2) [OF assms]
  have fr: "map item_frame out = take (length out) ss" .
  then have "length (map item_frame out) = length (take (length out) ss)"
    by simp
  then have len: "length out \<le> length ss"
    by simp
  have nth: "DatasetItem.screen (out ! i) = ScreenEvent.screen (ss ! i)
        \<and> DatasetItem.timestamp (out ! i) = ScreenEvent.timestamp (ss ! i)"
    if "i < length out" for i
    using to_training_data_nth [OF assms that] by (metis item_frame_sel)
  have "map DatasetItem.timestamp out = map ScreenEvent.timestamp (map item_frame out)"
    by (simp add: comp_def)
  also have "\<dots> = take (length out) (map ScreenEvent.timestamp ss)"
    by (simp add: fr take_map)
  finally have "sorted (map DatasetItem.timestamp out)"
    if "sorted (map ScreenEvent.timestamp ss)"
    using that by simp
  with len nth show ?thesis
    by blast
qed

theorem output_is_frame_prefix_witness:
  "to_training_data (3 / 2) scenario_keys scenario_frames = Inr (take 3 scenario_items)
   \<and> length (take 3 scenario_items) \<le> length scenario_frames
   \<and> 2 < length (take 3 scenario_items)
   \<and> DatasetItem.screen (take 3 scenario_items ! 2) = ScreenEvent.screen (scenario_frames ! 2)
   \<and> DatasetItem.timestamp (take 3 scenario_items ! 2)
       = ScreenEvent.timestamp (scenario_frames ! 2)
   \<and> sorted (map ScreenEvent.timestamp scenario_frames)
   \<and> sorted (map DatasetItem.timestamp (take 3 scenario_items))"
proof -
  have i: "2 < length (take 3 scenario_items)"
    by (simp add: scenario_items_def)
  from output_is_frame_prefix [OF scenario_run_3_2] i scenario_sorted(2) scenario_run_3_2
  show ?thesis
    by blast
qed



end
